theory Spec2Isabelle
  imports Main
begin

section \<open>Active health-check state (lib/healthcheck, type state)\<close>

text \<open>
  The Go struct \<open>state\<close> holds the filter configuration, the string sets \<open>all\<close> and
  \<open>healthy\<close> and the map \<open>trend\<close>. A string set is a HOL set of strings, the map a
  partial function; reading a missing key of a Go map yields the zero value, which
  \<open>trend_of\<close> spells out. The mutex only brackets each method and is not modelled:
  every method is one atomic state transformer.

  Go's \<open>int\<close> is modelled by the unbounded integers: every value stored in \<open>trend\<close> is
  the result of a clamp between \<open>- Fails\<close> and \<open>Passes\<close>, so the only arithmetic done on it
  (one increment or decrement) stays far from the machine bounds for every
  configuration whose thresholds are below the largest machine integer.
\<close>

record FilterConfig =
  Fails :: int
  Passes :: int

record state =
  config :: FilterConfig
  all :: "string set"
  healthy :: "string set"
  trend :: "string \<rightharpoonup> int"

definition newState :: "FilterConfig \<Rightarrow> state" where
  "newState c = \<lparr>config = c, all = {}, healthy = {}, trend = Map.empty\<rparr>"

text \<open>\<open>s.trend[addr]\<close> as an expression: the stored value, or 0 for a missing key.\<close>

definition trend_of :: "state \<Rightarrow> string \<Rightarrow> int" where
  "trend_of s addr = (case trend s addr of None \<Rightarrow> 0 | Some v \<Rightarrow> v)"

text \<open>
  \<open>sync\<close> runs two loops. The first ranges over \<open>addrs\<close> and adds every address that is
  not in \<open>all\<close> to \<open>all\<close> and to \<open>healthy\<close>. The second ranges over \<open>healthy\<close> (as left by the
  first loop) and, for every address that is not in \<open>addrs\<close>, removes it from \<open>healthy\<close>
  and deletes its \<open>trend\<close> entry. Each loop treats every element on its own, so the
  iteration order of the Go map does not matter and the loops are set operations.
  The second loop does not touch \<open>all\<close>.
\<close>

definition sync :: "state \<Rightarrow> string set \<Rightarrow> state" where
  "sync s addrs =
     (let fresh = {addr \<in> addrs. addr \<notin> all s};
          all1 = all s \<union> fresh;
          healthy1 = healthy s \<union> fresh;
          dropped = {addr \<in> healthy1. addr \<notin> addrs}
      in s\<lparr>all := all1,
            healthy := healthy1 - dropped,
            trend := (\<lambda>addr. if addr \<in> dropped then None else trend s addr)\<rparr>)"

definition failed :: "state \<Rightarrow> string \<Rightarrow> state" where
  "failed s addr =
     (let t = max (min (trend_of s addr - 1) (- 1)) (- Fails (config s));
          s1 = s\<lparr>trend := (trend s)(addr \<mapsto> t)\<rparr>
      in if trend_of s1 addr = - Fails (config s1)
         then s1\<lparr>healthy := healthy s1 - {addr}\<rparr>
         else s1)"

definition passed :: "state \<Rightarrow> string \<Rightarrow> state" where
  "passed s addr =
     (let t = min (max (trend_of s addr + 1) 1) (Passes (config s));
          s1 = s\<lparr>trend := (trend s)(addr \<mapsto> t)\<rparr>
      in if trend_of s1 addr = Passes (config s1)
         then s1\<lparr>healthy := insert addr (healthy s1)\<rparr>
         else s1)"

definition getHealthy :: "state \<Rightarrow> string set" where
  "getHealthy s = healthy s"

text \<open>A call of one of the three mutating methods, and a sequence of such calls.\<close>

datatype state_op = OpSync "string set" | OpPassed string | OpFailed string

fun apply_op :: "state \<Rightarrow> state_op \<Rightarrow> state" where
  "apply_op s (OpSync addrs) = sync s addrs"
| "apply_op s (OpPassed addr) = passed s addr"
| "apply_op s (OpFailed addr) = failed s addr"

fun run_ops :: "state \<Rightarrow> state_op list \<Rightarrow> state" where
  "run_ops s [] = s"
| "run_ops s (x # xs) = run_ops (apply_op s x) xs"

text \<open>
  The invariant of one address: its counter lies between the two thresholds, and a
  counter at the upper threshold means the address is healthy.
\<close>

definition trend_inv :: "state \<Rightarrow> string \<Rightarrow> bool" where
  "trend_inv s a =
     (- FilterConfig.Fails (state.config s) \<le> trend_of s a \<and>
      trend_of s a \<le> Passes (state.config s) \<and>
      (trend_of s a < Passes (state.config s) \<or> a \<in> state.healthy s))"

section \<open>Passive health filter (lib/healthcheck, type passiveFilter)\<close>

text \<open>
  A \<open>time.Time\<close> is an integer count of nanoseconds. A \<open>time.Duration\<close> is a 64-bit
  count of nanoseconds, and \<open>t.Sub(u)\<close> is the difference of the two times clipped to
  that range: the largest Duration when the difference is above it, the smallest when
  it is below. The clock \<open>f.clk\<close> is an input: every method takes the reading \<open>now\<close>
  that \<open>f.clk.Now()\<close> gives during the call; \<open>Run\<close>, which reads the clock once for
  each entry, is given one reading for all of them.
  \<open>PassiveFilterConfig\<close> is declared outside the files studied; the two fields the
  methods read are kept.
\<close>

definition maxDuration :: int where
  "maxDuration = 9223372036854775807"

definition minDuration :: int where
  "minDuration = - 9223372036854775808"

definition Sub :: "int \<Rightarrow> int \<Rightarrow> int" where
  "Sub t u =
     (if t - u > maxDuration then maxDuration
      else if t - u < minDuration then minDuration
      else t - u)"

record PassiveFilterConfig =
  Fails :: int
  FailTimeout :: int

record passiveFilter =
  config :: PassiveFilterConfig
  unhealthy :: "string \<rightharpoonup> int"
  failures :: "string \<rightharpoonup> int list"

definition second :: int where
  "second = 1000000000"

definition NewPassiveFilter :: "PassiveFilterConfig \<Rightarrow> passiveFilter" where
  "NewPassiveFilter c = \<lparr>config = c, unhealthy = Map.empty, failures = Map.empty\<rparr>"

text \<open>
  \<open>Run\<close> copies \<open>addrs\<close> and ranges over the \<open>unhealthy\<close> map: an entry older than
  \<open>FailTimeout\<close> is deleted from the map, any other entry has its address removed from
  the copy. Every entry is treated on its own, so the loop is a map and a set
  operation. The result is the returned set together with the filter after the call.
\<close>

definition Run :: "passiveFilter \<Rightarrow> int \<Rightarrow> string set \<Rightarrow> string set \<times> passiveFilter" where
  "Run f now addrs =
     (let expired = (\<lambda>addr. case unhealthy f addr of
                        None \<Rightarrow> False
                      | Some t \<Rightarrow> Sub now t > FailTimeout (config f));
          kept = (\<lambda>addr. case unhealthy f addr of
                        None \<Rightarrow> False
                      | Some t \<Rightarrow> \<not> Sub now t > FailTimeout (config f))
      in ({addr \<in> addrs. \<not> kept addr},
          f\<lparr>unhealthy := (\<lambda>addr. if expired addr then None else unhealthy f addr)\<rparr>))"

text \<open>The loop of \<open>Failed\<close> that pops expired failures off the front of the slice.\<close>

fun pop_expired :: "int \<Rightarrow> int \<Rightarrow> int list \<Rightarrow> int list" where
  "pop_expired now timeout [] = []"
| "pop_expired now timeout (t # ts) =
     (if Sub now t > timeout then pop_expired now timeout ts else t # ts)"

text \<open>\<open>f.failures[addr]\<close> as an expression: the stored slice, or the empty one.\<close>

definition failures_of :: "passiveFilter \<Rightarrow> string \<Rightarrow> int list" where
  "failures_of f addr = (case failures f addr of None \<Rightarrow> [] | Some ts \<Rightarrow> ts)"

definition Failed :: "passiveFilter \<Rightarrow> int \<Rightarrow> string \<Rightarrow> passiveFilter" where
  "Failed f now addr =
     (let failures0 = failures_of f addr;
          failures1 = pop_expired now (FailTimeout (config f)) failures0;
          failures2 = failures1 @ [now];
          f1 = (if int (length failures2) \<ge> Fails (config f)
                then f\<lparr>unhealthy := (unhealthy f)(addr \<mapsto> now)\<rparr>
                else f)
      in f1\<lparr>failures := (failures f1)(addr \<mapsto> failures2)\<rparr>)"








section \<open>Rendezvous hash ring (package hashring, type ring)\<close>

text \<open>
  Modelled from the spec: \<open>hrw.RendezvousHash\<close> and its method \<open>GetOrderedNodes\<close>
  (package lib/hrw) are outside the files studied. The spec has it "resolve all nodes
  in rendezvous-sorted order": the hash is taken as the function that gives, for a
  shard key, the labels of all its nodes in rendezvous order, and
  \<open>GetOrderedNodes key n\<close> returns the first \<open>n\<close> of them.
\<close>

type_synonym RendezvousHash = "string \<Rightarrow> string list"

definition GetOrderedNodes :: "RendezvousHash \<Rightarrow> string \<Rightarrow> nat \<Rightarrow> string list" where
  "GetOrderedNodes h key n = take n (h key)"

text \<open>
  \<open>core.Digest\<close> is outside the files studied as well; \<open>Locations\<close> reads only the
  value of \<open>d.ShardID()\<close>, kept as the field of the record.
\<close>

record Digest =
  ShardID :: string

record Config =
  MaxReplica :: int

record ring =
  config :: Config
  addrs :: "string set"
  hash :: RendezvousHash
  healthy :: "string set"

datatype ring_fault = InvariantViolation | IndexOutOfRange

text \<open>
  The \<open>for\<close> loop of \<open>Locations\<close>, with its index \<open>i\<close> and the slice \<open>locs\<close> built
  so far.
\<close>

function Locations_loop ::
  "string list \<Rightarrow> string set \<Rightarrow> int \<Rightarrow> nat \<Rightarrow> string list \<Rightarrow> string list" where
  "Locations_loop nodes hs maxReplica i locs =
     (if i < length nodes \<and> (length locs = 0 \<or> int i < maxReplica)
      then Locations_loop nodes hs maxReplica (i + 1)
             (if nodes ! i \<in> hs then locs @ [nodes ! i] else locs)
      else locs)"
  by pat_completeness auto
termination
  by (relation "measure (\<lambda>(nodes, hs, maxReplica, i, locs). length nodes - i)") auto

declare Locations_loop.simps [simp del]

text \<open>
  \<open>Locations\<close> ends the process through \<open>log.Fatal\<close> when the hash returns a number of
  nodes other than the size of \<open>addrs\<close>, and panics on \<open>nodes[0]\<close> when there is no
  node at all; both are results of the model. \<open>len(r.healthy) == 0\<close> is written as
  emptiness of the set.
\<close>

definition Locations :: "ring \<Rightarrow> Digest \<Rightarrow> ring_fault + string list" where
  "Locations r d =
     (let nodes = GetOrderedNodes (hash r) (ShardID d) (card (addrs r))
      in if length nodes \<noteq> card (addrs r) then Inl InvariantViolation
         else if healthy r = {} then
           (case nodes of [] \<Rightarrow> Inl IndexOutOfRange | n # _ \<Rightarrow> Inr [n])
         else Inr (Locations_loop nodes (healthy r) (MaxReplica (config r)) 0 []))"

section \<open>Interval trap (utils/dedup, type IntervalTrap)\<close>

text \<open>
  The trap keeps the interval and the time of the previous run. The clock is an
  input: a call of \<open>Trap\<close> reads it up to three times, for the check under the read
  lock, for the check under the write lock and after the task has run. A run of the
  task is an event, recorded with the reading that let it start and the reading taken
  when it was over.
\<close>

record IntervalTrap =
  interval :: int
  prev :: int

record readings =
  now_check :: int
  now_recheck :: int
  now_done :: int

datatype trap_event = TaskRun int int

definition NewIntervalTrap :: "int \<Rightarrow> int \<Rightarrow> IntervalTrap" where
  "NewIntervalTrap iv now = \<lparr>interval = iv, prev = now\<rparr>"

definition ready :: "IntervalTrap \<Rightarrow> int \<Rightarrow> bool" where
  "ready t now = (now > prev t + interval t)"

definition Trap :: "IntervalTrap \<Rightarrow> readings \<Rightarrow> IntervalTrap \<times> trap_event list" where
  "Trap t c =
     (if \<not> ready t (now_check c) then (t, [])
      else if \<not> ready t (now_recheck c) then (t, [])
      else (t\<lparr>prev := now_done c\<rparr>, [TaskRun (now_recheck c) (now_done c)]))"

text \<open>A sequence of calls, one after the other, with the events in order.\<close>

fun Traps :: "IntervalTrap \<Rightarrow> readings list \<Rightarrow> IntervalTrap \<times> trap_event list" where
  "Traps t [] = (t, [])"
| "Traps t (c # cs) =
     (case Trap t c of (t1, es) \<Rightarrow>
        (case Traps t1 cs of (t2, es2) \<Rightarrow> (t2, es @ es2)))"

text \<open>
  Runs are spaced when each one started more than the interval after the time
  recorded for the run before it (\<open>p\<close> for the first one).
\<close>

fun spaced :: "int \<Rightarrow> int \<Rightarrow> trap_event list \<Rightarrow> bool" where
  "spaced iv p [] = True"
| "spaced iv p (TaskRun started done # es) = (started > p + iv \<and> spaced iv done es)"

fun last_done :: "int \<Rightarrow> trap_event list \<Rightarrow> int" where
  "last_done p [] = p"
| "last_done p (TaskRun started done # es) = last_done done es"

section \<open>Simple store (lib/store, type SimpleStore)\<close>

text \<open>
  An error value is one of the two sentinel errors of the \<open>os\<close> package that matter
  here, or an error made by \<open>fmt.Errorf\<close>, which only has a message. \<open>os.IsExist\<close>
  holds of the first sentinel alone.
\<close>

datatype os_error = ErrExist | ErrNotExist | Errorf string

fun Error_of :: "os_error \<Rightarrow> string" where
  "Error_of ErrExist = ''file already exists''"
| "Error_of ErrNotExist = ''file does not exist''"
| "Error_of (Errorf msg) = msg"

definition IsExist :: "os_error \<Rightarrow> bool" where
  "IsExist e = (e = ErrExist)"

text \<open>
  The methods that \<open>SimpleStore\<close> inherits from the embedded \<open>uploadStore\<close> and
  \<open>cacheStore\<close>, and \<open>io.Copy\<close>, are outside the files studied. They are parameters of
  the model: a record of operations on a store state \<open>'st\<close>, each returning its error
  (if any) and the state it leaves. A reader is what reading it to the end gives, an
  error or the bytes; a writer and a file path are the name of the file.
\<close>

type_synonym reader = "os_error + string"

record 'st store_ops =
  CreateUploadFile :: "'st \<Rightarrow> string \<Rightarrow> int \<Rightarrow> os_error option \<times> 'st"
  GetUploadFileReadWriter :: "'st \<Rightarrow> string \<Rightarrow> os_error + string"
  Copy :: "'st \<Rightarrow> string \<Rightarrow> reader \<Rightarrow> os_error option \<times> 'st"
  DeleteUploadFile :: "'st \<Rightarrow> string \<Rightarrow> os_error option \<times> 'st"
  GetFilePath :: "'st \<Rightarrow> string \<Rightarrow> os_error + string"
  MoveFileFrom :: "'st \<Rightarrow> string \<Rightarrow> string \<Rightarrow> os_error option \<times> 'st"

text \<open>
  \<open>MoveUploadFileToCache\<close>: the deferred \<open>DeleteUploadFile\<close> runs after the move, its
  error is dropped.
\<close>

definition MoveUploadFileToCache ::
  "'st store_ops \<Rightarrow> 'st \<Rightarrow> string \<Rightarrow> string \<Rightarrow> os_error option \<times> 'st" where
  "MoveUploadFileToCache ops s uploadName cacheName =
     (case GetFilePath ops s uploadName of
        Inl err \<Rightarrow> (Some err, s)
      | Inr uploadPath \<Rightarrow>
          (case MoveFileFrom ops s cacheName uploadPath of
             (err, s1) \<Rightarrow> (err, snd (DeleteUploadFile ops s1 uploadName))))"

text \<open>
  \<open>CreateCacheFile\<close>: \<open>u\<close> is the string of the generated UUID. Once the upload file
  has been created, the deferred \<open>DeleteUploadFile\<close> runs on every way out; closing the
  writer has no effect on the model.
\<close>

definition CreateCacheFile ::
  "'st store_ops \<Rightarrow> 'st \<Rightarrow> string \<Rightarrow> string \<Rightarrow> reader \<Rightarrow> os_error option \<times> 'st" where
  "CreateCacheFile ops s u name r =
     (let tmp = name @ ''.'' @ u in
      case CreateUploadFile ops s tmp 0 of
        (Some err, s1) \<Rightarrow> (Some (Errorf (''create upload file: '' @ Error_of err)), s1)
      | (None, s1) \<Rightarrow>
          (case (case GetUploadFileReadWriter ops s1 tmp of
                   Inl err \<Rightarrow> (Some (Errorf (''get upload writer: '' @ Error_of err)), s1)
                 | Inr w \<Rightarrow>
                     (case Copy ops s1 w r of
                        (Some err, s2) \<Rightarrow> (Some (Errorf (''copy: '' @ Error_of err)), s2)
                      | (None, s2) \<Rightarrow>
                          (case MoveUploadFileToCache ops s2 tmp name of
                             (Some err, s3) \<Rightarrow>
                               if \<not> IsExist err
                               then (Some (Errorf (''move upload file to cache: '' @ Error_of err)), s3)
                               else (None, s3)
                           | (None, s3) \<Rightarrow> (None, s3)))) of
             (res, s4) \<Rightarrow> (res, snd (DeleteUploadFile ops s4 tmp))))"

text \<open>
  Modelled from the spec: the upload directory and the cache directory behind those
  operations (lib/store/base) are outside the files studied; the spec abstracts the
  file store as a key to stream cache. Each directory is a map from file names to
  contents. Creating an upload file that exists and moving a file onto a cache name
  that exists give the already-exists error; opening, locating or moving a file that
  does not exist gives the not-exists error; a move takes the file out of the upload
  directory.
\<close>

record SimpleStore =
  uploadStore :: "string \<rightharpoonup> string"
  cacheStore :: "string \<rightharpoonup> string"

definition dir_ops :: "SimpleStore store_ops" where
  "dir_ops =
     \<lparr>CreateUploadFile = (\<lambda>s name len.
        if uploadStore s name \<noteq> None then (Some ErrExist, s)
        else (None, s\<lparr>uploadStore := (uploadStore s)(name \<mapsto> replicate (nat len) (CHR 0x00))\<rparr>)),
      GetUploadFileReadWriter = (\<lambda>s name.
        if uploadStore s name = None then Inl ErrNotExist else Inr name),
      Copy = (\<lambda>s w r.
        case r of
          Inl err \<Rightarrow> (Some err, s)
        | Inr bytes \<Rightarrow> (None, s\<lparr>uploadStore := (uploadStore s)(w \<mapsto> bytes)\<rparr>)),
      DeleteUploadFile = (\<lambda>s name.
        if uploadStore s name = None then (Some ErrNotExist, s)
        else (None, s\<lparr>uploadStore := (uploadStore s)(name := None)\<rparr>)),
      GetFilePath = (\<lambda>s name.
        if uploadStore s name = None then Inl ErrNotExist else Inr name),
      MoveFileFrom = (\<lambda>s name path.
        if cacheStore s name \<noteq> None then (Some ErrExist, s)
        else (case uploadStore s path of
                None \<Rightarrow> (Some ErrNotExist, s)
              | Some bytes \<Rightarrow>
                  (None, s\<lparr>uploadStore := (uploadStore s)(path := None),
                            cacheStore := (cacheStore s)(name \<mapsto> bytes)\<rparr>)))\<rparr>"

section \<open>Reloadable scheduler (lib/torrent/scheduler, type reloadableScheduler)\<close>

text \<open>
  A scheduler is known here by the fields that \<open>reload\<close> reads: its configuration and
  the references to the torrent archive, the stats scope, the peer context, the
  announce client and the network-events sink. A reference is a handle; two fields
  share an object when they hold the same handle.
\<close>

datatype handle = Handle nat

datatype announce_queue = Queue nat

record scheduler =
  config :: nat
  torrentArchive :: handle
  stats :: handle
  pctx :: handle
  announceClient :: handle
  netevents :: handle

text \<open>
  \<open>Stop\<close>, \<open>newScheduler\<close>, \<open>start\<close> and the queue factory \<open>aq\<close> are outside the files
  studied. They are parameters: operations on the state \<open>'w\<close> of the rest of the process,
  the fallible ones returning the message of their error.
\<close>

record 'w scheduler_ops =
  Stop :: "scheduler \<Rightarrow> 'w \<Rightarrow> 'w"
  newScheduler ::
    "nat \<Rightarrow> handle \<Rightarrow> handle \<Rightarrow> handle \<Rightarrow> handle \<Rightarrow> handle \<Rightarrow> 'w \<Rightarrow> (string + scheduler) \<times> 'w"
  start :: "scheduler \<Rightarrow> announce_queue \<Rightarrow> 'w \<Rightarrow> string option \<times> 'w"

record 'w reloadableScheduler =
  scheduler :: scheduler
  aq :: "'w \<Rightarrow> announce_queue \<times> 'w"

text \<open>
  What a call does to the outside, in order: taking and releasing the mutex \<open>rs.mu\<close>,
  the calls of the operations with their arguments, and the fatal log that ends the
  process.
\<close>

datatype reload_event =
    MuLock
  | MuUnlock
  | CallStop scheduler
  | CallNewScheduler nat handle handle handle handle handle
  | CallAq
  | CallStart scheduler announce_queue
  | LogFatal string

text \<open>
  \<open>reload\<close> returns its error (if any), the reloadable scheduler and the state of the
  process it leaves, and its events. The deferred \<open>Unlock\<close> is the last event on every
  way out.
\<close>

definition reload ::
  "'w scheduler_ops \<Rightarrow> 'w reloadableScheduler \<Rightarrow> nat \<Rightarrow> 'w \<Rightarrow>
     string option \<times> 'w reloadableScheduler \<times> 'w \<times> reload_event list" where
  "reload ops rs cfg w =
     (let s = scheduler rs;
          w1 = Stop ops s w;
          ev1 = [MuLock, CallStop s,
                 CallNewScheduler cfg (torrentArchive s) (stats s) (pctx s)
                   (announceClient s) (netevents s)]
      in case newScheduler ops cfg (torrentArchive s) (stats s) (pctx s)
                (announceClient s) (netevents s) w1 of
           (Inl err, w2) \<Rightarrow>
             (Some (''create new scheduler: '' @ err), rs, w2, ev1 @ [MuUnlock])
         | (Inr n, w2) \<Rightarrow>
             (let rs1 = rs\<lparr>scheduler := n\<rparr> in
              case aq rs1 w2 of
                (q, w3) \<Rightarrow>
                  (case start ops (scheduler rs1) q w3 of
                     (Some err, w4) \<Rightarrow>
                       (Some (''start new scheduler: '' @ err), rs1, w4,
                        ev1 @ [CallAq, CallStart (scheduler rs1) q, MuUnlock])
                   | (None, w4) \<Rightarrow>
                       (None, rs1, w4,
                        ev1 @ [CallAq, CallStart (scheduler rs1) q, MuUnlock]))))"

text \<open>
  \<open>Reload\<close> either returns to its caller or ends the process in \<open>log.Fatalf\<close>.
\<close>

datatype 'a outcome = Returned 'a | Fatal

definition Reload ::
  "'w scheduler_ops \<Rightarrow> 'w reloadableScheduler \<Rightarrow> nat \<Rightarrow> 'w \<Rightarrow>
     ('w reloadableScheduler \<times> 'w) outcome \<times> reload_event list" where
  "Reload ops rs cfg w =
     (case reload ops rs cfg w of
        (Some err, rs1, w1, ev) \<Rightarrow>
          (Fatal, ev @ [LogFatal (''Failed to reload scheduler config: '' @ err)])
      | (None, rs1, w1, ev) \<Rightarrow> (Returned (rs1, w1), ev))"

text \<open>
  An instance of the operations, to run the model on: the state of the process is
  the number of queues made so far, construction fails on configuration 0 and keeps
  its arguments otherwise, and the start fails on configuration 13.
\<close>

definition counting_ops :: "nat scheduler_ops" where
  "counting_ops =
     \<lparr>Stop = (\<lambda>s w. w),
      newScheduler = (\<lambda>cfg ta st pc ac ne w.
        (if cfg = 0 then Inl ''invalid config''
         else Inr \<lparr>config = cfg, torrentArchive = ta, stats = st, pctx = pc,
                   announceClient = ac, netevents = ne\<rparr>, w)),
      start = (\<lambda>s q w. (if config s = 13 then Some ''listen failed'' else None, w))\<rparr>"

definition counting_rs :: "nat reloadableScheduler" where
  "counting_rs =
     \<lparr>scheduler = \<lparr>config = 1, torrentArchive = Handle 1, stats = Handle 2, pctx = Handle 3,
                    announceClient = Handle 4, netevents = Handle 5\<rparr>,
      aq = (\<lambda>w. (Queue w, Suc w))\<rparr>"

section \<open>Properties of the active health-check state\<close>

lemmas state_defs = sync_def passed_def failed_def trend_of_def Let_def

lemma config_passed: "state.config (passed s a) = state.config s"
  by (simp add: state_defs)

lemma config_failed: "state.config (failed s a) = state.config s"
  by (simp add: state_defs)

lemma config_apply_op: "state.config (apply_op s x) = state.config s"
  by (cases x) (simp_all add: state_defs)

lemma config_run_ops: "state.config (run_ops s xs) = state.config s"
  by (induction xs arbitrary: s) (simp_all add: config_apply_op)

lemma trend_of_passed:
  "trend_of (passed s a) a = min (max (trend_of s a + 1) 1) (Passes (state.config s))"
  by (simp add: state_defs)

lemma trend_of_failed:
  "trend_of (failed s a) a =
     max (min (trend_of s a - 1) (- 1)) (- FilterConfig.Fails (state.config s))"
  by (simp add: state_defs)

lemma failed_healthy_iff:
  "a \<in> state.healthy (failed s a) \<longleftrightarrow>
     a \<in> state.healthy s \<and> trend_of (failed s a) a \<noteq> - FilterConfig.Fails (state.config s)"
  by (auto simp: state_defs)

lemma passed_healthy_iff:
  "a \<in> state.healthy (passed s a) \<longleftrightarrow>
     a \<in> state.healthy s \<or> trend_of (passed s a) a = Passes (state.config s)"
  by (auto simp: state_defs)

lemma trend_inv_apply_op:
  assumes "0 \<le> FilterConfig.Fails (state.config s)" "0 < Passes (state.config s)" "trend_inv s a"
  shows "trend_inv (apply_op s x) a"
proof (cases x)
  case (OpSync addrs)
  with assms show ?thesis by (auto simp: trend_inv_def state_defs)
next
  case (OpPassed b)
  with assms show ?thesis by (auto simp: trend_inv_def state_defs)
next
  case (OpFailed b)
  with assms show ?thesis by (auto simp: trend_inv_def state_defs)
qed

lemma trend_inv_run_ops:
  "0 \<le> FilterConfig.Fails (state.config s) \<Longrightarrow> 0 < Passes (state.config s) \<Longrightarrow>
   trend_inv s a \<Longrightarrow> trend_inv (run_ops s xs) a"
proof (induction xs arbitrary: s)
  case Nil
  then show ?case by simp
next
  case (Cons x xs)
  have "trend_inv (apply_op s x) a"
    using Cons.prems by (rule trend_inv_apply_op)
  with Cons show ?case by (simp add: config_apply_op)
qed

lemma trend_inv_newState:
  "0 \<le> FilterConfig.Fails c \<Longrightarrow> 0 < Passes c \<Longrightarrow> trend_inv (newState c) a"
  by (simp add: trend_inv_def newState_def trend_of_def)

lemma config_passed_pow: "state.config (((\<lambda>s. passed s a) ^^ k) s) = state.config s"
  by (induction k) (simp_all add: config_passed)

lemma config_failed_pow: "state.config (((\<lambda>s. failed s a) ^^ k) s) = state.config s"
  by (induction k) (simp_all add: config_failed)

lemma passed_pow:
  assumes "trend_of s a \<le> 0" "0 < Passes (state.config s)"
  shows "trend_of (((\<lambda>s. passed s a) ^^ k) s) a =
           (if k = 0 then trend_of s a else min (int k) (Passes (state.config s)))
       \<and> (a \<in> state.healthy (((\<lambda>s. passed s a) ^^ k) s) \<longleftrightarrow>
            a \<in> state.healthy s \<or> (0 < k \<and> Passes (state.config s) \<le> int k))"
proof (induction k)
  case 0
  then show ?case by simp
next
  case (Suc k)
  let ?s = "((\<lambda>s. passed s a) ^^ k) s"
  have c: "state.config ?s = state.config s"
    by (rule config_passed_pow)
  have t: "trend_of (passed ?s a) a = min (max (trend_of ?s a + 1) 1) (Passes (state.config s))"
    by (simp add: trend_of_passed c)
  have h: "a \<in> state.healthy (passed ?s a) \<longleftrightarrow>
             a \<in> state.healthy ?s \<or> trend_of (passed ?s a) a = Passes (state.config s)"
    by (simp add: passed_healthy_iff c)
  from Suc assms t h show ?case by (cases "k = 0") auto
qed

lemma failed_pow:
  assumes "0 \<le> trend_of s a" "0 < FilterConfig.Fails (state.config s)"
  shows "trend_of (((\<lambda>s. failed s a) ^^ k) s) a =
           (if k = 0 then trend_of s a else - min (int k) (FilterConfig.Fails (state.config s)))
       \<and> (a \<in> state.healthy (((\<lambda>s. failed s a) ^^ k) s) \<longleftrightarrow>
            a \<in> state.healthy s \<and> (k = 0 \<or> int k < FilterConfig.Fails (state.config s)))"
proof (induction k)
  case 0
  then show ?case by simp
next
  case (Suc k)
  let ?s = "((\<lambda>s. failed s a) ^^ k) s"
  have c: "state.config ?s = state.config s"
    by (rule config_failed_pow)
  have t: "trend_of (failed ?s a) a =
             max (min (trend_of ?s a - 1) (- 1)) (- FilterConfig.Fails (state.config s))"
    by (simp add: trend_of_failed c)
  have h: "a \<in> state.healthy (failed ?s a) \<longleftrightarrow>
             a \<in> state.healthy ?s \<and> trend_of (failed ?s a) a \<noteq> - FilterConfig.Fails (state.config s)"
    by (simp add: failed_healthy_iff c)
  from Suc assms t h show ?case by (cases "k = 0") auto
qed

text \<open>
  C5. With \<open>Fails = 2\<close> and \<open>Passes = 2\<close>, on a state that holds \<open>h1\<close>: two passes leave
  \<open>h1\<close> healthy, two fails make it unhealthy, two more passes make it healthy again.
  The following \<open>sync\<close> with the set \<open>{h2}\<close> removes \<open>h1\<close> from \<open>healthy\<close> and from
  \<open>trend\<close>, but \<open>h1\<close> stays in \<open>all\<close>; a later \<open>sync\<close> that brings \<open>h1\<close> back therefore
  does not insert it as healthy.
\<close>

theorem sync_leaves_dropped_in_all:
  "''h1'' \<in> getHealthy (run_ops (newState \<lparr>FilterConfig.Fails = 2, Passes = 2\<rparr>)
      [OpSync {''h1''}, OpPassed ''h1'', OpPassed ''h1''])
   \<and> ''h1'' \<notin> getHealthy (run_ops (newState \<lparr>FilterConfig.Fails = 2, Passes = 2\<rparr>)
      [OpSync {''h1''}, OpPassed ''h1'', OpPassed ''h1'', OpFailed ''h1'', OpFailed ''h1''])
   \<and> ''h1'' \<in> getHealthy (run_ops (newState \<lparr>FilterConfig.Fails = 2, Passes = 2\<rparr>)
      [OpSync {''h1''}, OpPassed ''h1'', OpPassed ''h1'', OpFailed ''h1'', OpFailed ''h1'',
       OpPassed ''h1'', OpPassed ''h1''])
   \<and> ''h1'' \<notin> getHealthy (run_ops (newState \<lparr>FilterConfig.Fails = 2, Passes = 2\<rparr>)
      [OpSync {''h1''}, OpPassed ''h1'', OpPassed ''h1'', OpFailed ''h1'', OpFailed ''h1'',
       OpPassed ''h1'', OpPassed ''h1'', OpSync {''h2''}])
   \<and> trend (run_ops (newState \<lparr>FilterConfig.Fails = 2, Passes = 2\<rparr>)
      [OpSync {''h1''}, OpPassed ''h1'', OpPassed ''h1'', OpFailed ''h1'', OpFailed ''h1'',
       OpPassed ''h1'', OpPassed ''h1'', OpSync {''h2''}]) ''h1'' = None
   \<and> ''h1'' \<in> all (run_ops (newState \<lparr>FilterConfig.Fails = 2, Passes = 2\<rparr>)
      [OpSync {''h1''}, OpPassed ''h1'', OpPassed ''h1'', OpFailed ''h1'', OpFailed ''h1'',
       OpPassed ''h1'', OpPassed ''h1'', OpSync {''h2''}])
   \<and> ''h1'' \<notin> getHealthy (run_ops (newState \<lparr>FilterConfig.Fails = 2, Passes = 2\<rparr>)
      [OpSync {''h1''}, OpPassed ''h1'', OpPassed ''h1'', OpFailed ''h1'', OpFailed ''h1'',
       OpPassed ''h1'', OpPassed ''h1'', OpSync {''h2''}, OpSync {''h1'', ''h2''}])"
  by (simp add: newState_def getHealthy_def state_defs)

text \<open>
  C6, as stated: an address is healthy if and only if its counter has reached
  \<open>Passes\<close>. It fails right after the first \<open>sync\<close>, which inserts a new address as
  healthy with no counter at all.
\<close>

theorem healthy_iff_trend_counterexample:
  "\<not> (''h1'' \<in> state.healthy (run_ops (newState \<lparr>FilterConfig.Fails = 2, Passes = 2\<rparr>) [OpSync {''h1''}])
       \<longleftrightarrow> trend_of (run_ops (newState \<lparr>FilterConfig.Fails = 2, Passes = 2\<rparr>) [OpSync {''h1''}]) ''h1''
            = Passes \<lparr>FilterConfig.Fails = 2, Passes = 2\<rparr>)"
  by (simp add: newState_def state_defs)

text \<open>
  C6, amended. From a new state with \<open>0 \<le> Fails\<close> and \<open>0 < Passes\<close>, after any sequence
  of \<open>sync\<close>, \<open>passed\<close> and \<open>failed\<close> calls the counter of every address lies in
  \<open>[- Fails, Passes]\<close>, and an address whose counter is at \<open>Passes\<close> is healthy. In any
  state, \<open>passed a\<close> leaves \<open>a\<close> healthy exactly when it was healthy before or its counter
  has now reached \<open>Passes\<close>, and \<open>failed a\<close> leaves \<open>a\<close> healthy exactly when it was
  healthy before and its counter has not now reached \<open>- Fails\<close>.
\<close>

theorem trend_bounds_and_transitions:
  assumes "0 \<le> FilterConfig.Fails c" and "0 < Passes c"
  shows "- FilterConfig.Fails c \<le> trend_of (run_ops (newState c) ops) a
       \<and> trend_of (run_ops (newState c) ops) a \<le> Passes c
       \<and> (trend_of (run_ops (newState c) ops) a = Passes c \<longrightarrow>
            a \<in> state.healthy (run_ops (newState c) ops))
       \<and> (a \<in> state.healthy (passed s a) \<longleftrightarrow>
            a \<in> state.healthy s \<or> trend_of (passed s a) a = Passes (state.config s))
       \<and> (a \<in> state.healthy (failed s a) \<longleftrightarrow>
            a \<in> state.healthy s \<and> trend_of (failed s a) a \<noteq> - FilterConfig.Fails (state.config s))"
proof -
  have c: "state.config (newState c) = c"
    by (simp add: newState_def)
  have "trend_inv (run_ops (newState c) ops) a"
    using assms by (intro trend_inv_run_ops trend_inv_newState) (simp_all add: c)
  then have "- FilterConfig.Fails c \<le> trend_of (run_ops (newState c) ops) a
       \<and> trend_of (run_ops (newState c) ops) a \<le> Passes c
       \<and> (trend_of (run_ops (newState c) ops) a = Passes c \<longrightarrow>
            a \<in> state.healthy (run_ops (newState c) ops))"
    by (auto simp: trend_inv_def config_run_ops c)
  then show ?thesis
    using passed_healthy_iff [of a s] failed_healthy_iff [of a s] by blast
qed

theorem trend_bounds_and_transitions_witness:
  "trend_of (run_ops (newState \<lparr>FilterConfig.Fails = 2, Passes = 2\<rparr>)
       [OpSync {''h1''}, OpFailed ''h1'', OpPassed ''h1'', OpPassed ''h1'']) ''h1'' = 2
   \<and> ''h1'' \<in> state.healthy (run_ops (newState \<lparr>FilterConfig.Fails = 2, Passes = 2\<rparr>)
       [OpSync {''h1''}, OpFailed ''h1'', OpPassed ''h1'', OpPassed ''h1''])"
proof -
  let ?c = "\<lparr>FilterConfig.Fails = 2, Passes = 2\<rparr>"
  let ?r = "run_ops (newState ?c) [OpSync {''h1''}, OpFailed ''h1'', OpPassed ''h1'', OpPassed ''h1'']"
  have pos: "0 \<le> FilterConfig.Fails ?c" "0 < Passes ?c"
    by simp_all
  have t: "trend_of ?r ''h1'' = 2"
    by (simp add: newState_def state_defs)
  have "trend_of ?r ''h1'' = Passes ?c \<longrightarrow> ''h1'' \<in> state.healthy ?r"
    using trend_bounds_and_transitions [OF pos, where a = "''h1''" and s = "newState ?c"]
    by blast
  with t show ?thesis by simp
qed

text \<open>
  C9. With \<open>0 < Fails\<close> and \<open>0 < Passes\<close>, whatever the counter of \<open>a\<close> was: after
  \<open>failed a\<close> it lies in \<open>[- Fails, - 1]\<close> and after \<open>passed a\<close> in \<open>[1, Passes]\<close>. So
  after a fail, \<open>k\<close> passes in a row make an unhealthy address healthy exactly when
  \<open>k\<close> is at least \<open>Passes\<close>, and after a pass, \<open>k\<close> fails in a row leave a healthy address
  healthy exactly when \<open>k\<close> is below \<open>Fails\<close>.
\<close>

theorem single_call_resets_trend:
  assumes "0 < FilterConfig.Fails (state.config s)" and "0 < Passes (state.config s)"
  shows "- FilterConfig.Fails (state.config s) \<le> trend_of (failed s a) a
       \<and> trend_of (failed s a) a \<le> - 1
       \<and> 1 \<le> trend_of (passed s a) a
       \<and> trend_of (passed s a) a \<le> Passes (state.config s)
       \<and> (a \<in> state.healthy (((\<lambda>s. passed s a) ^^ k) (failed s a)) \<longleftrightarrow>
            a \<in> state.healthy (failed s a) \<or> Passes (state.config s) \<le> int k)
       \<and> (a \<in> state.healthy (((\<lambda>s. failed s a) ^^ k) (passed s a)) \<longleftrightarrow>
            a \<in> state.healthy (passed s a) \<and> int k < FilterConfig.Fails (state.config s))"
proof -
  have f: "- FilterConfig.Fails (state.config s) \<le> trend_of (failed s a) a
         \<and> trend_of (failed s a) a \<le> - 1"
    using assms by (simp add: trend_of_failed)
  have p: "1 \<le> trend_of (passed s a) a \<and> trend_of (passed s a) a \<le> Passes (state.config s)"
    using assms by (simp add: trend_of_passed)
  have "a \<in> state.healthy (((\<lambda>s. passed s a) ^^ k) (failed s a)) \<longleftrightarrow>
          a \<in> state.healthy (failed s a) \<or> (0 < k \<and> Passes (state.config s) \<le> int k)"
    using passed_pow [of "failed s a" a k] f assms by (simp add: config_failed)
  then have up: "a \<in> state.healthy (((\<lambda>s. passed s a) ^^ k) (failed s a)) \<longleftrightarrow>
          a \<in> state.healthy (failed s a) \<or> Passes (state.config s) \<le> int k"
    using assms by (cases "k = 0") auto
  have "a \<in> state.healthy (((\<lambda>s. failed s a) ^^ k) (passed s a)) \<longleftrightarrow>
          a \<in> state.healthy (passed s a) \<and> (k = 0 \<or> int k < FilterConfig.Fails (state.config s))"
    using failed_pow [of "passed s a" a k] p assms by (simp add: config_passed)
  then have down: "a \<in> state.healthy (((\<lambda>s. failed s a) ^^ k) (passed s a)) \<longleftrightarrow>
          a \<in> state.healthy (passed s a) \<and> int k < FilterConfig.Fails (state.config s)"
    using assms by (cases "k = 0") auto
  from f p up down show ?thesis by blast
qed

theorem single_call_resets_trend_witness:
  "trend_of (failed \<lparr>state.config = \<lparr>FilterConfig.Fails = 3, Passes = 2\<rparr>, all = {''h1''},
        healthy = {''h1''}, trend = [''h1'' \<mapsto> 2]\<rparr> ''h1'') ''h1'' = - 1
   \<and> trend_of (passed \<lparr>state.config = \<lparr>FilterConfig.Fails = 3, Passes = 2\<rparr>, all = {''h1''},
        healthy = {}, trend = [''h1'' \<mapsto> - 3]\<rparr> ''h1'') ''h1'' = 1
   \<and> ''h1'' \<notin> state.healthy (((\<lambda>s. passed s ''h1'') ^^ 1)
        (failed \<lparr>state.config = \<lparr>FilterConfig.Fails = 3, Passes = 2\<rparr>, all = {''h1''},
           healthy = {}, trend = [''h1'' \<mapsto> - 3]\<rparr> ''h1''))"
proof -
  let ?c = "\<lparr>FilterConfig.Fails = 3, Passes = 2\<rparr>"
  let ?u = "\<lparr>state.config = ?c, all = {''h1''}, healthy = {}, trend = [''h1'' \<mapsto> - 3]\<rparr>"
  have pos: "0 < FilterConfig.Fails (state.config ?u)" "0 < Passes (state.config ?u)"
    by simp_all
  have u: "''h1'' \<notin> state.healthy (failed ?u ''h1'')"
    by (simp add: state_defs)
  have a: "trend_of (failed \<lparr>state.config = ?c, all = {''h1''},
        healthy = {''h1''}, trend = [''h1'' \<mapsto> 2]\<rparr> ''h1'') ''h1'' = - 1"
    by (simp add: state_defs)
  have b: "trend_of (passed ?u ''h1'') ''h1'' = 1"
    by (simp add: state_defs)
  have "''h1'' \<notin> state.healthy (((\<lambda>s. passed s ''h1'') ^^ 1) (failed ?u ''h1''))"
    using single_call_resets_trend [OF pos, of "''h1''" 1] u by simp
  with a b show ?thesis by blast
qed

section \<open>Properties of the passive health filter\<close>

lemmas passive_defs = NewPassiveFilter_def Run_def Failed_def failures_of_def second_def Let_def
  Sub_def maxDuration_def minDuration_def






lemma Run_member:
  "b \<in> fst (Run f now A) \<longleftrightarrow>
     b \<in> A \<and> (case unhealthy f b of None \<Rightarrow> True
                   | Some t \<Rightarrow> Sub now t > FailTimeout (passiveFilter.config f))"
  by (simp add: Run_def Let_def split: option.splits)



text \<open>
  The scenario of C3: \<open>Fails = 3\<close>, \<open>FailTimeout\<close> of 30 seconds, \<open>h1\<close> reported failed at
  0, 1 and 2 seconds.
\<close>

lemma three_failures:
  "Failed (Failed (Failed (NewPassiveFilter \<lparr>PassiveFilterConfig.Fails = 3, FailTimeout = 30 * second\<rparr>)
       0 ''h1'') (1 * second) ''h1'') (2 * second) ''h1''
   = \<lparr>passiveFilter.config = \<lparr>PassiveFilterConfig.Fails = 3, FailTimeout = 30000000000\<rparr>,
      unhealthy = [''h1'' \<mapsto> 2000000000],
      failures = [''h1'' \<mapsto> [0, 1000000000, 2000000000]]\<rparr>"
  by (simp add: passive_defs)

text \<open>
  C3, as stated: the filter returns both hosts at 31 seconds. At that time the mark
  of \<open>h1\<close>, set by the third failure at 2 seconds, is 29 seconds old, which is not more
  than \<open>FailTimeout\<close>: \<open>h1\<close> is still left out, whether or not the filter was run at
  3 seconds before.
\<close>

theorem passive_scenario_counterexample:
  "fst (Run (Failed (Failed (Failed
         (NewPassiveFilter \<lparr>PassiveFilterConfig.Fails = 3, FailTimeout = 30 * second\<rparr>)
         0 ''h1'') (1 * second) ''h1'') (2 * second) ''h1'')
       (31 * second) {''h1'', ''h2''}) \<noteq> {''h1'', ''h2''}
   \<and> fst (Run (snd (Run (Failed (Failed (Failed
         (NewPassiveFilter \<lparr>PassiveFilterConfig.Fails = 3, FailTimeout = 30 * second\<rparr>)
         0 ''h1'') (1 * second) ''h1'') (2 * second) ''h1'')
         (3 * second) {''h1'', ''h2''}))
       (31 * second) {''h1'', ''h2''}) \<noteq> {''h1'', ''h2''}"
proof -
  have "''h1'' \<notin> fst (Run (Failed (Failed (Failed
         (NewPassiveFilter \<lparr>PassiveFilterConfig.Fails = 3, FailTimeout = 30 * second\<rparr>)
         0 ''h1'') (1 * second) ''h1'') (2 * second) ''h1'')
       (31 * second) {''h1'', ''h2''})"
    unfolding three_failures
    by (simp add: Run_member second_def Sub_def maxDuration_def minDuration_def)
  moreover have "''h1'' \<notin> fst (Run (snd (Run (Failed (Failed (Failed
         (NewPassiveFilter \<lparr>PassiveFilterConfig.Fails = 3, FailTimeout = 30 * second\<rparr>)
         0 ''h1'') (1 * second) ''h1'') (2 * second) ''h1'')
         (3 * second) {''h1'', ''h2''}))
       (31 * second) {''h1'', ''h2''})"
    unfolding three_failures by (simp add: Run_member second_def Sub_def maxDuration_def minDuration_def)
      (simp add: Run_def second_def Sub_def maxDuration_def minDuration_def)
  ultimately show ?thesis by blast
qed

text \<open>
  C3, amended. In that scenario \<open>Run\<close> on \<open>{h1, h2}\<close> returns \<open>{h2}\<close> at 3 seconds, still
  \<open>{h2}\<close> at 31 seconds, and \<open>{h1, h2}\<close> at every time later than 32 seconds, that is
  more than \<open>FailTimeout\<close> after the mark.
\<close>

theorem passive_scenario:
  "fst (Run (Failed (Failed (Failed
         (NewPassiveFilter \<lparr>PassiveFilterConfig.Fails = 3, FailTimeout = 30 * second\<rparr>)
         0 ''h1'') (1 * second) ''h1'') (2 * second) ''h1'')
       (3 * second) {''h1'', ''h2''}) = {''h2''}
   \<and> fst (Run (Failed (Failed (Failed
         (NewPassiveFilter \<lparr>PassiveFilterConfig.Fails = 3, FailTimeout = 30 * second\<rparr>)
         0 ''h1'') (1 * second) ''h1'') (2 * second) ''h1'')
       (31 * second) {''h1'', ''h2''}) = {''h2''}
   \<and> (32 * second < now \<longrightarrow>
       fst (Run (Failed (Failed (Failed
         (NewPassiveFilter \<lparr>PassiveFilterConfig.Fails = 3, FailTimeout = 30 * second\<rparr>)
         0 ''h1'') (1 * second) ''h1'') (2 * second) ''h1'')
       now {''h1'', ''h2''}) = {''h1'', ''h2''})"
  unfolding three_failures
  by (auto simp: Run_member second_def Sub_def maxDuration_def minDuration_def
      split: option.splits if_splits)

theorem passive_scenario_witness:
  "32 * second < 33 * second
   \<and> fst (Run (Failed (Failed (Failed
         (NewPassiveFilter \<lparr>PassiveFilterConfig.Fails = 3, FailTimeout = 30 * second\<rparr>)
         0 ''h1'') (1 * second) ''h1'') (2 * second) ''h1'')
       (33 * second) {''h1'', ''h2''}) = {''h1'', ''h2''}"
proof -
  have lt: "32 * second < 33 * second"
    by (simp add: second_def)
  with passive_scenario [of "33 * second"] show ?thesis by blast
qed



















section \<open>Properties of the rendezvous hash ring\<close>

text \<open>
  Once an address has been collected, the loop goes on only below \<open>MaxReplica\<close> and
  appends the healthy nodes it meets.
\<close>

lemma Locations_loop_collected:
  "locs \<noteq> [] \<Longrightarrow>
   Locations_loop nodes H m i locs =
     locs @ filter (\<lambda>a. a \<in> H) (take (nat m - i) (drop i nodes))"
proof (induction nodes H m i locs rule: Locations_loop.induct)
  case (1 nodes H m i locs)
  show ?case
  proof (cases "i < length nodes \<and> int i < m")
    case True
    let ?locs = "if nodes ! i \<in> H then locs @ [nodes ! i] else locs"
    have ne: "?locs \<noteq> []"
      using "1.prems" by simp
    have step: "Locations_loop nodes H m i locs = Locations_loop nodes H m (i + 1) ?locs"
      using True by (subst Locations_loop.simps) simp
    have ih: "Locations_loop nodes H m (i + 1) ?locs =
                ?locs @ filter (\<lambda>a. a \<in> H) (take (nat m - (i + 1)) (drop (i + 1) nodes))"
      using True ne by (intro "1.IH") simp_all
    have "nat m - i = Suc (nat m - (i + 1))"
      using True by linarith
    moreover have "drop i nodes = nodes ! i # drop (i + 1) nodes"
      using True by (simp add: Cons_nth_drop_Suc)
    ultimately have "take (nat m - i) (drop i nodes) =
                       nodes ! i # take (nat m - (i + 1)) (drop (i + 1) nodes)"
      by simp
    with step ih show ?thesis by simp
  next
    case False
    have "Locations_loop nodes H m i locs = locs"
      using False "1.prems" by (subst Locations_loop.simps) auto
    moreover have "filter (\<lambda>a. a \<in> H) (take (nat m - i) (drop i nodes)) = []"
      using False by auto
    ultimately show ?thesis by (simp only: append_Nil2)
  qed
qed

text \<open>
  With nothing collected yet, the loop returns the healthy nodes below \<open>MaxReplica\<close>
  when there are any, and otherwise the first healthy node further on, if there is
  one.
\<close>

lemma Locations_loop_start:
  "locs = [] \<Longrightarrow>
   Locations_loop nodes H m i locs =
     (if filter (\<lambda>a. a \<in> H) (take (nat m - i) (drop i nodes)) \<noteq> []
      then filter (\<lambda>a. a \<in> H) (take (nat m - i) (drop i nodes))
      else (case find (\<lambda>a. a \<in> H) (drop (nat m - i) (drop i nodes)) of
              None \<Rightarrow> [] | Some a \<Rightarrow> [a]))"
proof (induction nodes H m i locs rule: Locations_loop.induct)
  case (1 nodes H m i locs)
  note empty = "1.prems"
  show ?case
  proof (cases "i < length nodes")
    case False
    have "Locations_loop nodes H m i locs = locs"
      using False by (subst Locations_loop.simps) simp
    with False empty show ?thesis by simp
  next
    case True
    let ?locs = "if nodes ! i \<in> H then locs @ [nodes ! i] else locs"
    have step: "Locations_loop nodes H m i locs = Locations_loop nodes H m (i + 1) ?locs"
      using True empty by (subst Locations_loop.simps) simp
    have d: "drop i nodes = nodes ! i # drop (i + 1) nodes"
      using True by (simp add: Cons_nth_drop_Suc)
    show ?thesis
    proof (cases "nodes ! i \<in> H")
      case healthy: True
      have "Locations_loop nodes H m (i + 1) ?locs =
              [nodes ! i] @ filter (\<lambda>a. a \<in> H) (take (nat m - (i + 1)) (drop (i + 1) nodes))"
        using healthy empty Locations_loop_collected [of "[nodes ! i]" nodes H m "i + 1"] by simp
      with step have res: "Locations_loop nodes H m i locs =
              nodes ! i # filter (\<lambda>a. a \<in> H) (take (nat m - (i + 1)) (drop (i + 1) nodes))"
        by simp
      show ?thesis
      proof (cases "i < nat m")
        case True
        then have "nat m - i = Suc (nat m - (i + 1))"
          by linarith
        with d healthy res show ?thesis by simp
      next
        case False
        then have "nat m - i = 0" "nat m - (i + 1) = 0"
          by simp_all
        with d healthy res show ?thesis by simp
      qed
    next
      case unhealthy: False
      have ih: "Locations_loop nodes H m (i + 1) ?locs =
        (if filter (\<lambda>a. a \<in> H) (take (nat m - (i + 1)) (drop (i + 1) nodes)) \<noteq> []
         then filter (\<lambda>a. a \<in> H) (take (nat m - (i + 1)) (drop (i + 1) nodes))
         else (case find (\<lambda>a. a \<in> H) (drop (nat m - (i + 1)) (drop (i + 1) nodes)) of
                 None \<Rightarrow> [] | Some a \<Rightarrow> [a]))"
        using True empty unhealthy by (intro "1.IH") simp_all
      show ?thesis
      proof (cases "i < nat m")
        case True
        then have "nat m - i = Suc (nat m - (i + 1))"
          by linarith
        with d unhealthy step ih show ?thesis by simp
      next
        case False
        then have "nat m - i = 0" "nat m - (i + 1) = 0"
          by simp_all
        with d unhealthy step ih show ?thesis by simp
      qed
    qed
  qed
qed

lemma GetOrderedNodes_all:
  "distinct (h key) \<Longrightarrow> set (h key) = S \<Longrightarrow> GetOrderedNodes h key (card S) = h key"
  using distinct_card [of "h key"] by (simp add: GetOrderedNodes_def)

lemma find_Some_ex:
  "\<exists>a \<in> set xs. P a \<Longrightarrow> \<exists>a. find P xs = Some a \<and> P a \<and> a \<in> set xs"
  by (induction xs) auto

text \<open>
  \<open>Locations\<close> on a ring whose hash holds exactly the members: the nodes for the
  digest are all the members, without repetition.
\<close>

lemma Locations_eq:
  assumes "distinct (hash r (ShardID d))" and "set (hash r (ShardID d)) = addrs r"
    and "addrs r \<noteq> {}"
  shows "Locations r d =
    (if ring.healthy r = {} then Inr [hash r (ShardID d) ! 0]
     else if filter (\<lambda>a. a \<in> ring.healthy r)
               (take (nat (MaxReplica (ring.config r))) (hash r (ShardID d))) \<noteq> []
     then Inr (filter (\<lambda>a. a \<in> ring.healthy r)
               (take (nat (MaxReplica (ring.config r))) (hash r (ShardID d))))
     else Inr (case find (\<lambda>a. a \<in> ring.healthy r)
                      (drop (nat (MaxReplica (ring.config r))) (hash r (ShardID d))) of
                 None \<Rightarrow> [] | Some a \<Rightarrow> [a]))"
proof -
  let ?nodes = "hash r (ShardID d)"
  have n: "GetOrderedNodes (hash r) (ShardID d) (card (addrs r)) = ?nodes"
    using assms(1,2) by (rule GetOrderedNodes_all)
  have len: "length ?nodes = card (addrs r)"
    using assms(1,2) distinct_card [of ?nodes] by simp
  have "?nodes \<noteq> []"
    using assms(2,3) by auto
  then obtain x xs where c: "?nodes = x # xs"
    by (cases ?nodes) auto
  show ?thesis
  proof (cases "ring.healthy r = {}")
    case True
    with n len c show ?thesis
      by (simp add: Locations_def)
  next
    case False
    have "Locations r d =
            Inr (Locations_loop ?nodes (ring.healthy r) (MaxReplica (ring.config r)) 0 [])"
      using False n len by (simp add: Locations_def)
    with False show ?thesis
      by (simp add: Locations_loop_start)
  qed
qed

text \<open>
  C1. On a ring whose hash holds exactly its (at least one) members, with \<open>nodes\<close> the
  rendezvous order for \<open>d.ShardID\<close>: when the healthy set is empty, \<open>Locations\<close> returns
  the single top-ranked node; otherwise it returns, in rendezvous order, every healthy
  node among the first \<open>MaxReplica\<close> nodes when there is one, and when there is none,
  the first healthy node of the rest of the walk alone (and nothing when the walk
  meets no healthy node at all).
\<close>

theorem Locations_replica_set:
  assumes "distinct (hash r (ShardID d))" and "set (hash r (ShardID d)) = addrs r"
    and "addrs r \<noteq> {}"
  shows "(ring.healthy r = {} \<longrightarrow> Locations r d = Inr [hash r (ShardID d) ! 0])
     \<and> (ring.healthy r \<noteq> {} \<and>
          filter (\<lambda>a. a \<in> ring.healthy r)
            (take (nat (MaxReplica (ring.config r))) (hash r (ShardID d))) \<noteq> [] \<longrightarrow>
        Locations r d =
          Inr (filter (\<lambda>a. a \<in> ring.healthy r)
                 (take (nat (MaxReplica (ring.config r))) (hash r (ShardID d)))))
     \<and> (ring.healthy r \<noteq> {} \<and>
          filter (\<lambda>a. a \<in> ring.healthy r)
            (take (nat (MaxReplica (ring.config r))) (hash r (ShardID d))) = [] \<longrightarrow>
        Locations r d =
          Inr (case find (\<lambda>a. a \<in> ring.healthy r)
                      (drop (nat (MaxReplica (ring.config r))) (hash r (ShardID d))) of
                 None \<Rightarrow> [] | Some a \<Rightarrow> [a]))"
  using Locations_eq [OF assms] by simp

theorem Locations_replica_set_witness:
  "Locations \<lparr>ring.config = \<lparr>MaxReplica = 2\<rparr>, addrs = {''h1'', ''h2'', ''h3''},
       hash = (\<lambda>key. [''h2'', ''h3'', ''h1'']), healthy = {}\<rparr> \<lparr>ShardID = ''0001''\<rparr>
     = Inr [''h2'']
   \<and> Locations \<lparr>ring.config = \<lparr>MaxReplica = 2\<rparr>, addrs = {''h1'', ''h2'', ''h3''},
       hash = (\<lambda>key. [''h2'', ''h3'', ''h1'']), healthy = {''h1'', ''h3''}\<rparr> \<lparr>ShardID = ''0001''\<rparr>
     = Inr [''h3'']
   \<and> Locations \<lparr>ring.config = \<lparr>MaxReplica = 2\<rparr>, addrs = {''h1'', ''h2'', ''h3''},
       hash = (\<lambda>key. [''h2'', ''h3'', ''h1'']), healthy = {''h1''}\<rparr> \<lparr>ShardID = ''0001''\<rparr>
     = Inr [''h1'']"
proof -
  let ?d = "\<lparr>ShardID = ''0001''\<rparr>"
  let ?r = "\<lambda>H. \<lparr>ring.config = \<lparr>MaxReplica = 2\<rparr>, addrs = {''h1'', ''h2'', ''h3''},
       hash = (\<lambda>key. [''h2'', ''h3'', ''h1'']), healthy = H\<rparr>"
  have wf: "distinct (hash (?r H) (ShardID ?d))" "set (hash (?r H) (ShardID ?d)) = addrs (?r H)"
      "addrs (?r H) \<noteq> {}" for H
    by auto
  have two: "nat 2 = Suc (Suc 0)"
    by simp
  have a: "Locations (?r {}) ?d = Inr [''h2'']"
    using Locations_replica_set [OF wf, of "{}"] by simp
  have b: "Locations (?r {''h1'', ''h3''}) ?d = Inr [''h3'']"
    using Locations_replica_set [OF wf, of "{''h1'', ''h3''}"] by (simp add: two)
  have c: "Locations (?r {''h1''}) ?d = Inr [''h1'']"
    using Locations_replica_set [OF wf, of "{''h1''}"] by (simp add: two)
  from a b c show ?thesis by simp
qed

text \<open>
  C2. When the ring has at least one member, its hash holds exactly the members and
  the healthy set is a subset of the members, \<open>Locations\<close> returns a list of at least
  one address.
\<close>

theorem Locations_nonempty:
  assumes "distinct (hash r (ShardID d))" and "set (hash r (ShardID d)) = addrs r"
    and "addrs r \<noteq> {}" and "ring.healthy r \<subseteq> addrs r"
  shows "\<exists>locs. Locations r d = Inr locs \<and> 1 \<le> length locs"
proof (cases "ring.healthy r = {}")
  case True
  then show ?thesis
    using Locations_eq [OF assms(1-3)] by simp
next
  case False
  let ?nodes = "hash r (ShardID d)"
  let ?m = "nat (MaxReplica (ring.config r))"
  let ?P = "\<lambda>a. a \<in> ring.healthy r"
  show ?thesis
  proof (cases "filter ?P (take ?m ?nodes) = []")
    case top: False
    with False show ?thesis
      using Locations_eq [OF assms(1-3)] by (simp add: Suc_le_eq)
  next
    case top: True
    from False assms(2,4) obtain a where a: "a \<in> set ?nodes" "?P a"
      by auto
    have "a \<notin> set (take ?m ?nodes)"
      using top a(2) by (auto simp: filter_empty_conv)
    moreover have "set ?nodes = set (take ?m ?nodes) \<union> set (drop ?m ?nodes)"
      using set_append [of "take ?m ?nodes" "drop ?m ?nodes"] by simp
    ultimately have "\<exists>a \<in> set (drop ?m ?nodes). ?P a"
      using a by auto
    then obtain b where "find ?P (drop ?m ?nodes) = Some b"
      using find_Some_ex [of "drop ?m ?nodes" ?P] by blast
    with False top show ?thesis
      using Locations_eq [OF assms(1-3)] by simp
  qed
qed

theorem Locations_nonempty_witness:
  "distinct (hash \<lparr>ring.config = \<lparr>MaxReplica = 2\<rparr>, addrs = {''h1'', ''h2'', ''h3''},
       hash = (\<lambda>key. [''h2'', ''h3'', ''h1'']), healthy = {''h1''}\<rparr> ''0001'')
   \<and> ring.healthy \<lparr>ring.config = \<lparr>MaxReplica = 2\<rparr>, addrs = {''h1'', ''h2'', ''h3''},
       hash = (\<lambda>key. [''h2'', ''h3'', ''h1'']), healthy = {''h1''}\<rparr>
     \<subseteq> {''h1'', ''h2'', ''h3''}
   \<and> (\<exists>locs. Locations \<lparr>ring.config = \<lparr>MaxReplica = 2\<rparr>, addrs = {''h1'', ''h2'', ''h3''},
       hash = (\<lambda>key. [''h2'', ''h3'', ''h1'']), healthy = {''h1''}\<rparr> \<lparr>ShardID = ''0001''\<rparr>
         = Inr locs \<and> 1 \<le> length locs)"
proof -
  let ?d = "\<lparr>ShardID = ''0001''\<rparr>"
  let ?r = "\<lparr>ring.config = \<lparr>MaxReplica = 2\<rparr>, addrs = {''h1'', ''h2'', ''h3''},
       hash = (\<lambda>key. [''h2'', ''h3'', ''h1'']), healthy = {''h1''}\<rparr>"
  have wf: "distinct (hash ?r (ShardID ?d))" "set (hash ?r (ShardID ?d)) = addrs ?r"
      "addrs ?r \<noteq> {}" "ring.healthy ?r \<subseteq> addrs ?r"
    by auto
  have "\<exists>locs. Locations ?r ?d = Inr locs \<and> 1 \<le> length locs"
    by (rule Locations_nonempty [OF wf])
  then show ?thesis by simp
qed

section \<open>Properties of the interval trap\<close>

lemma Trap_cases:
  "Trap t c =
     (if ready t (now_check c) \<and> ready t (now_recheck c)
      then (t\<lparr>prev := now_done c\<rparr>, [TaskRun (now_recheck c) (now_done c)])
      else (t, []))"
  by (simp add: Trap_def)

lemma spaced_append:
  "spaced iv p (es @ es2) \<longleftrightarrow> spaced iv p es \<and> spaced iv (last_done p es) es2"
  by (induction iv p es rule: spaced.induct) simp_all

lemma last_done_append:
  "last_done p (es @ es2) = last_done (last_done p es) es2"
  by (induction p es rule: last_done.induct) simp_all

lemma Trap_invariant:
  "spaced (interval t) (prev t) (snd (Trap t c))
   \<and> prev (fst (Trap t c)) = last_done (prev t) (snd (Trap t c))
   \<and> interval (fst (Trap t c)) = interval t"
  by (simp add: Trap_cases ready_def)

lemma Traps_invariant:
  "spaced (interval t) (prev t) (snd (Traps t cs))
   \<and> prev (fst (Traps t cs)) = last_done (prev t) (snd (Traps t cs))
   \<and> interval (fst (Traps t cs)) = interval t"
proof (induction cs arbitrary: t)
  case Nil
  then show ?case by simp
next
  case (Cons c cs)
  obtain t1 es where one: "Trap t c = (t1, es)"
    by (cases "Trap t c")
  obtain t2 es2 where rest: "Traps t1 cs = (t2, es2)"
    by (cases "Traps t1 cs")
  from Trap_invariant [of t c] one
  have a: "spaced (interval t) (prev t) es" "prev t1 = last_done (prev t) es"
      "interval t1 = interval t"
    by simp_all
  from Cons.IH [of t1] rest
  have b: "spaced (interval t1) (prev t1) es2" "prev t2 = last_done (prev t1) es2"
      "interval t2 = interval t1"
    by simp_all
  from a b show ?case
    by (simp add: one rest spaced_append last_done_append)
qed

text \<open>
  C8. A call of \<open>Trap\<close> runs the task only when both readings of the clock are more
  than \<open>interval\<close> after \<open>prev\<close>; it then sets \<open>prev\<close> to the reading taken after the run,
  and otherwise changes nothing and runs nothing. Over any sequence of calls, every
  run therefore starts more than \<open>interval\<close> after the time recorded at the end of the
  run before it (or after the initial \<open>prev\<close>), and \<open>prev\<close> ends as the time recorded for
  the last run.
\<close>

theorem Trap_runs_once_per_interval:
  "(ready t (now_check c) \<and> ready t (now_recheck c) \<longrightarrow>
      now_recheck c > prev t + interval t
      \<and> Trap t c = (t\<lparr>prev := now_done c\<rparr>, [TaskRun (now_recheck c) (now_done c)]))
   \<and> (\<not> (ready t (now_check c) \<and> ready t (now_recheck c)) \<longrightarrow> Trap t c = (t, []))
   \<and> (snd (Trap t c) \<noteq> [] \<longrightarrow>
        now_check c > prev t + interval t \<and> now_recheck c > prev t + interval t
        \<and> prev (fst (Trap t c)) = now_done c)
   \<and> spaced (interval t) (prev t) (snd (Traps t cs))
   \<and> prev (fst (Traps t cs)) = last_done (prev t) (snd (Traps t cs))"
proof -
  have "snd (Trap t c) \<noteq> [] \<longrightarrow>
        now_check c > prev t + interval t \<and> now_recheck c > prev t + interval t
        \<and> prev (fst (Trap t c)) = now_done c"
    by (simp add: Trap_cases ready_def)
  moreover have "ready t (now_recheck c) \<longrightarrow> now_recheck c > prev t + interval t"
    by (simp add: ready_def)
  ultimately show ?thesis
    using Traps_invariant [of t cs] by (simp add: Trap_cases)
qed

theorem Trap_runs_once_per_interval_witness:
  "Trap (NewIntervalTrap 10 0) \<lparr>now_check = 11, now_recheck = 11, now_done = 12\<rparr>
     = (\<lparr>interval = 10, prev = 12\<rparr>, [TaskRun 11 12])
   \<and> Trap (NewIntervalTrap 10 0) \<lparr>now_check = 10, now_recheck = 10, now_done = 10\<rparr>
     = (\<lparr>interval = 10, prev = 0\<rparr>, [])
   \<and> snd (Traps (NewIntervalTrap 10 0)
        [\<lparr>now_check = 5, now_recheck = 5, now_done = 5\<rparr>,
         \<lparr>now_check = 11, now_recheck = 11, now_done = 12\<rparr>,
         \<lparr>now_check = 20, now_recheck = 21, now_done = 22\<rparr>,
         \<lparr>now_check = 23, now_recheck = 23, now_done = 24\<rparr>]) = [TaskRun 11 12, TaskRun 23 24]
   \<and> spaced 10 0 (snd (Traps (NewIntervalTrap 10 0)
        [\<lparr>now_check = 5, now_recheck = 5, now_done = 5\<rparr>,
         \<lparr>now_check = 11, now_recheck = 11, now_done = 12\<rparr>,
         \<lparr>now_check = 20, now_recheck = 21, now_done = 22\<rparr>,
         \<lparr>now_check = 23, now_recheck = 23, now_done = 24\<rparr>]))"
proof -
  let ?t = "NewIntervalTrap 10 0"
  let ?run = "\<lparr>now_check = 11, now_recheck = 11, now_done = 12\<rparr>"
  let ?idle = "\<lparr>now_check = 10, now_recheck = 10, now_done = 10\<rparr>"
  let ?cs = "[\<lparr>now_check = 5, now_recheck = 5, now_done = 5\<rparr>,
         \<lparr>now_check = 11, now_recheck = 11, now_done = 12\<rparr>,
         \<lparr>now_check = 20, now_recheck = 21, now_done = 22\<rparr>,
         \<lparr>now_check = 23, now_recheck = 23, now_done = 24\<rparr>]"
  have r: "ready ?t (now_check ?run) \<and> ready ?t (now_recheck ?run)"
    by (simp add: ready_def NewIntervalTrap_def)
  have n: "\<not> (ready ?t (now_check ?idle) \<and> ready ?t (now_recheck ?idle))"
    by (simp add: ready_def NewIntervalTrap_def)
  have a: "Trap ?t ?run = (\<lparr>interval = 10, prev = 12\<rparr>, [TaskRun 11 12])"
    using Trap_runs_once_per_interval [of ?t ?run "[]"] r by (simp add: NewIntervalTrap_def)
  have b: "Trap ?t ?idle = (\<lparr>interval = 10, prev = 0\<rparr>, [])"
    using Trap_runs_once_per_interval [of ?t ?idle "[]"] n by (simp add: NewIntervalTrap_def)
  have c: "snd (Traps ?t ?cs) = [TaskRun 11 12, TaskRun 23 24]"
    by (simp add: Trap_def ready_def NewIntervalTrap_def)
  have d: "spaced 10 0 (snd (Traps ?t ?cs))"
    using Trap_runs_once_per_interval [of ?t ?run ?cs] by (simp add: NewIntervalTrap_def)
  from a b c d show ?thesis by blast
qed

section \<open>Properties of the simple store\<close>

lemma CreateCacheFile_exists:
  assumes "CreateUploadFile ops s (name @ ''.'' @ u) 0 = (None, s1)"
    and "GetUploadFileReadWriter ops s1 (name @ ''.'' @ u) = Inr w"
    and "Copy ops s1 w r = (None, s2)"
    and "MoveUploadFileToCache ops s2 (name @ ''.'' @ u) name = (Some err, s3)"
    and "IsExist err"
  shows "CreateCacheFile ops s u name r = (None, snd (DeleteUploadFile ops s3 (name @ ''.'' @ u)))"
  using assms by (simp add: CreateCacheFile_def)

text \<open>
  On the two directories: a call with a free temporary name and a reader that gives
  its bytes succeeds, and leaves the upload directory as it was; the cache entry of
  \<open>name\<close> is written only when there was none.
\<close>

lemma CreateCacheFile_dir:
  assumes "uploadStore st (name @ ''.'' @ u) = None"
  shows "CreateCacheFile dir_ops st u name (Inr bytes) =
           (None, st\<lparr>cacheStore :=
              (if cacheStore st name = None then (cacheStore st)(name \<mapsto> bytes)
               else cacheStore st)\<rparr>)"
proof -
  let ?tmp = "name @ ''.'' @ u"
  let ?s1 = "st\<lparr>uploadStore := (uploadStore st)(?tmp \<mapsto> [])\<rparr>"
  let ?s2 = "st\<lparr>uploadStore := (uploadStore st)(?tmp \<mapsto> bytes)\<rparr>"
  have same: "(uploadStore st)(?tmp := None) = uploadStore st"
    using assms by (simp add: fun_upd_idem_iff)
  have c: "CreateUploadFile dir_ops st ?tmp 0 = (None, ?s1)"
    using assms by (simp add: dir_ops_def)
  have g: "GetUploadFileReadWriter dir_ops ?s1 ?tmp = Inr ?tmp"
    by (simp add: dir_ops_def)
  have w: "Copy dir_ops ?s1 ?tmp (Inr bytes) = (None, ?s2)"
    by (simp add: dir_ops_def)
  show ?thesis
  proof (cases "cacheStore st name = None")
    case True
    have m: "MoveUploadFileToCache dir_ops ?s2 ?tmp name =
               (None, st\<lparr>cacheStore := (cacheStore st)(name \<mapsto> bytes)\<rparr>)"
      using True same by (simp add: MoveUploadFileToCache_def dir_ops_def)
    have d: "snd (DeleteUploadFile dir_ops (st\<lparr>cacheStore := (cacheStore st)(name \<mapsto> bytes)\<rparr>) ?tmp)
               = st\<lparr>cacheStore := (cacheStore st)(name \<mapsto> bytes)\<rparr>"
      using assms by (simp add: dir_ops_def)
    from True c g w m d show ?thesis
      by (simp add: CreateCacheFile_def)
  next
    case False
    have m: "MoveUploadFileToCache dir_ops ?s2 ?tmp name = (Some ErrExist, st)"
      using False same by (auto simp: MoveUploadFileToCache_def dir_ops_def)
    have d: "snd (DeleteUploadFile dir_ops st ?tmp) = st"
      using assms by (simp add: dir_ops_def)
    from False c g w m d show ?thesis
      by (auto simp: CreateCacheFile_def IsExist_def)
  qed
qed

text \<open>
  C10. Whatever the store operations are: when the upload file is created, opened
  and written, and committing it to the cache fails with an error that \<open>os.IsExist\<close>
  accepts, \<open>CreateCacheFile\<close> returns no error. On the two directories, with free
  temporary names and readers that give their bytes: a call for a name that is in the
  cache succeeds and leaves the cached content as it is, and two calls in a row for
  the same name both succeed.
\<close>

theorem CreateCacheFile_idempotent:
  "(CreateUploadFile ops s (name @ ''.'' @ u) 0 = (None, s1)
      \<and> GetUploadFileReadWriter ops s1 (name @ ''.'' @ u) = Inr w
      \<and> Copy ops s1 w r = (None, s2)
      \<and> MoveUploadFileToCache ops s2 (name @ ''.'' @ u) name = (Some err, s3)
      \<and> IsExist err
    \<longrightarrow> fst (CreateCacheFile ops s u name r) = None)
   \<and> (cacheStore st name \<noteq> None \<and> uploadStore st (name @ ''.'' @ u) = None
    \<longrightarrow> fst (CreateCacheFile dir_ops st u name (Inr bytes)) = None
      \<and> cacheStore (snd (CreateCacheFile dir_ops st u name (Inr bytes))) name = cacheStore st name)
   \<and> (uploadStore st (name @ ''.'' @ u) = None \<and> uploadStore st (name @ ''.'' @ u2) = None
    \<longrightarrow> fst (CreateCacheFile dir_ops st u name (Inr bytes)) = None
      \<and> fst (CreateCacheFile dir_ops (snd (CreateCacheFile dir_ops st u name (Inr bytes)))
               u2 name (Inr bytes2)) = None)"
proof -
  have a: "fst (CreateCacheFile ops s u name r) = None"
    if "CreateUploadFile ops s (name @ ''.'' @ u) 0 = (None, s1)"
      and "GetUploadFileReadWriter ops s1 (name @ ''.'' @ u) = Inr w"
      and "Copy ops s1 w r = (None, s2)"
      and "MoveUploadFileToCache ops s2 (name @ ''.'' @ u) name = (Some err, s3)"
      and "IsExist err"
    using CreateCacheFile_exists [OF that] by simp
  have b: "fst (CreateCacheFile dir_ops st u name (Inr bytes)) = None
      \<and> cacheStore (snd (CreateCacheFile dir_ops st u name (Inr bytes))) name = cacheStore st name"
    if "cacheStore st name \<noteq> None" and "uploadStore st (name @ ''.'' @ u) = None"
    using that by (simp add: CreateCacheFile_dir)
  have c: "fst (CreateCacheFile dir_ops st u name (Inr bytes)) = None
      \<and> fst (CreateCacheFile dir_ops (snd (CreateCacheFile dir_ops st u name (Inr bytes)))
               u2 name (Inr bytes2)) = None"
    if f1: "uploadStore st (name @ ''.'' @ u) = None"
      and f2: "uploadStore st (name @ ''.'' @ u2) = None"
  proof -
    let ?st1 = "snd (CreateCacheFile dir_ops st u name (Inr bytes))"
    have "uploadStore ?st1 (name @ ''.'' @ u2) = None"
      using f1 f2 by (simp add: CreateCacheFile_dir)
    then have "fst (CreateCacheFile dir_ops ?st1 u2 name (Inr bytes2)) = None"
      by (simp add: CreateCacheFile_dir)
    moreover have "fst (CreateCacheFile dir_ops st u name (Inr bytes)) = None"
      using f1 by (simp add: CreateCacheFile_dir)
    ultimately show ?thesis by simp
  qed
  from a b c show ?thesis by blast
qed

theorem CreateCacheFile_idempotent_witness:
  "fst (CreateCacheFile dir_ops \<lparr>uploadStore = Map.empty, cacheStore = [''blob'' \<mapsto> ''old'']\<rparr>
          ''u1'' ''blob'' (Inr ''new'')) = None
   \<and> cacheStore (snd (CreateCacheFile dir_ops
          \<lparr>uploadStore = Map.empty, cacheStore = [''blob'' \<mapsto> ''old'']\<rparr>
          ''u1'' ''blob'' (Inr ''new''))) ''blob'' = Some ''old''
   \<and> fst (CreateCacheFile dir_ops \<lparr>uploadStore = Map.empty, cacheStore = Map.empty\<rparr>
          ''u1'' ''blob'' (Inr ''new'')) = None
   \<and> fst (CreateCacheFile dir_ops
          (snd (CreateCacheFile dir_ops \<lparr>uploadStore = Map.empty, cacheStore = Map.empty\<rparr>
             ''u1'' ''blob'' (Inr ''new'')))
          ''u2'' ''blob'' (Inr ''newer'')) = None"
proof -
  let ?full = "\<lparr>uploadStore = Map.empty, cacheStore = [''blob'' \<mapsto> ''old'']\<rparr>"
  let ?void = "\<lparr>uploadStore = Map.empty, cacheStore = Map.empty\<rparr>"
  have h1: "cacheStore ?full ''blob'' \<noteq> None \<and> uploadStore ?full (''blob'' @ ''.'' @ ''u1'') = None"
    by simp
  have h2: "uploadStore ?void (''blob'' @ ''.'' @ ''u1'') = None
      \<and> uploadStore ?void (''blob'' @ ''.'' @ ''u2'') = None"
    by simp
  have old: "cacheStore ?full ''blob'' = Some ''old''"
    by simp
  note th1 = CreateCacheFile_idempotent [where st = ?full and name = "''blob''" and u = "''u1''"
      and bytes = "''new''", THEN conjunct2, THEN conjunct1]
  note th2 = CreateCacheFile_idempotent [where st = ?void and name = "''blob''" and u = "''u1''"
      and ?u2.0 = "''u2''" and bytes = "''new''" and ?bytes2.0 = "''newer''",
      THEN conjunct2, THEN conjunct2]
  from th1 h1 old have a: "fst (CreateCacheFile dir_ops ?full ''u1'' ''blob'' (Inr ''new'')) = None
    \<and> cacheStore (snd (CreateCacheFile dir_ops ?full ''u1'' ''blob'' (Inr ''new''))) ''blob'' = Some ''old''"
    by simp
  from th2 h2 have b: "fst (CreateCacheFile dir_ops ?void ''u1'' ''blob'' (Inr ''new'')) = None
    \<and> fst (CreateCacheFile dir_ops (snd (CreateCacheFile dir_ops ?void ''u1'' ''blob'' (Inr ''new'')))
          ''u2'' ''blob'' (Inr ''newer'')) = None"
    by blast
  let ?tmp = "''blob'' @ ''.'' @ ''u1''"
  let ?s1 = "\<lparr>uploadStore = [?tmp \<mapsto> []], cacheStore = [''blob'' \<mapsto> ''old'']\<rparr>"
  let ?s2 = "\<lparr>uploadStore = [?tmp \<mapsto> ''new''], cacheStore = [''blob'' \<mapsto> ''old'']\<rparr>"
  have steps: "CreateUploadFile dir_ops ?full ?tmp 0 = (None, ?s1)
      \<and> GetUploadFileReadWriter dir_ops ?s1 ?tmp = Inr ?tmp
      \<and> Copy dir_ops ?s1 ?tmp (Inr ''new'') = (None, ?s2)
      \<and> MoveUploadFileToCache dir_ops ?s2 ?tmp ''blob'' = (Some ErrExist, ?full)
      \<and> IsExist ErrExist"
    by (simp add: dir_ops_def MoveUploadFileToCache_def IsExist_def)
  from steps CreateCacheFile_idempotent [where ops = dir_ops and s = ?full and name = "''blob''"
      and u = "''u1''" and ?s1.0 = ?s1 and w = ?tmp and r = "Inr ''new''" and ?s2.0 = ?s2
      and err = ErrExist and ?s3.0 = ?full, THEN conjunct1]
  have "fst (CreateCacheFile dir_ops ?full ''u1'' ''blob'' (Inr ''new'')) = None"
    by (rule rev_mp)
  with a b show ?thesis by blast
qed

section \<open>Properties of the reloadable scheduler\<close>

lemma aq_scheduler_update: "aq (rs\<lparr>scheduler := n\<rparr>) = aq rs"
  by simp

lemma reload_new_fails:
  assumes "newScheduler ops cfg (torrentArchive (scheduler rs)) (stats (scheduler rs))
             (pctx (scheduler rs)) (announceClient (scheduler rs)) (netevents (scheduler rs))
             (Stop ops (scheduler rs) w) = (Inl err, w2)"
  shows "reload ops rs cfg w =
           (Some (''create new scheduler: '' @ err), rs, w2,
            [MuLock, CallStop (scheduler rs),
             CallNewScheduler cfg (torrentArchive (scheduler rs)) (stats (scheduler rs))
               (pctx (scheduler rs)) (announceClient (scheduler rs)) (netevents (scheduler rs)),
             MuUnlock])"
  using assms by (simp add: reload_def Let_def)

lemma reload_new_succeeds:
  assumes "newScheduler ops cfg (torrentArchive (scheduler rs)) (stats (scheduler rs))
             (pctx (scheduler rs)) (announceClient (scheduler rs)) (netevents (scheduler rs))
             (Stop ops (scheduler rs) w) = (Inr n, w2)"
    and "aq rs w2 = (q, w3)"
    and "start ops n q w3 = (res, w4)"
  shows "reload ops rs cfg w =
           (map_option (\<lambda>err. ''start new scheduler: '' @ err) res, rs\<lparr>scheduler := n\<rparr>, w4,
            [MuLock, CallStop (scheduler rs),
             CallNewScheduler cfg (torrentArchive (scheduler rs)) (stats (scheduler rs))
               (pctx (scheduler rs)) (announceClient (scheduler rs)) (netevents (scheduler rs)),
             CallAq, CallStart n q, MuUnlock])"
  using assms by (cases res) (simp_all add: reload_def Let_def)

text \<open>
  C7. \<open>Reload\<close> takes the mutex, stops the current scheduler, and then constructs a
  scheduler from the new configuration and the torrent archive, stats, peer context,
  announce client and network-events sink of the stopped one. When the construction
  fails, the mutex is released and the process ends in the fatal log. Otherwise the new
  scheduler replaces the old one and is started with a queue taken from the factory
  at that moment; when the start fails, the mutex is released and the process ends in
  the fatal log, and when it succeeds, the mutex is released and \<open>Reload\<close> returns.
\<close>

theorem Reload_restart_or_fatal:
  "(newScheduler ops cfg (torrentArchive (scheduler rs)) (stats (scheduler rs))
        (pctx (scheduler rs)) (announceClient (scheduler rs)) (netevents (scheduler rs))
        (Stop ops (scheduler rs) w) = (Inl err, w2)
    \<longrightarrow> Reload ops rs cfg w =
         (Fatal,
          [MuLock, CallStop (scheduler rs),
           CallNewScheduler cfg (torrentArchive (scheduler rs)) (stats (scheduler rs))
             (pctx (scheduler rs)) (announceClient (scheduler rs)) (netevents (scheduler rs)),
           MuUnlock,
           LogFatal (''Failed to reload scheduler config: '' @ ''create new scheduler: '' @ err)]))
   \<and> (newScheduler ops cfg (torrentArchive (scheduler rs)) (stats (scheduler rs))
        (pctx (scheduler rs)) (announceClient (scheduler rs)) (netevents (scheduler rs))
        (Stop ops (scheduler rs) w) = (Inr n, v2)
      \<and> aq rs v2 = (q, v3) \<and> start ops n q v3 = (Some err2, v4)
    \<longrightarrow> Reload ops rs cfg w =
         (Fatal,
          [MuLock, CallStop (scheduler rs),
           CallNewScheduler cfg (torrentArchive (scheduler rs)) (stats (scheduler rs))
             (pctx (scheduler rs)) (announceClient (scheduler rs)) (netevents (scheduler rs)),
           CallAq, CallStart n q, MuUnlock,
           LogFatal (''Failed to reload scheduler config: '' @ ''start new scheduler: '' @ err2)]))
   \<and> (newScheduler ops cfg (torrentArchive (scheduler rs)) (stats (scheduler rs))
        (pctx (scheduler rs)) (announceClient (scheduler rs)) (netevents (scheduler rs))
        (Stop ops (scheduler rs) w) = (Inr n, v2)
      \<and> aq rs v2 = (q, v3) \<and> start ops n q v3 = (None, v4)
    \<longrightarrow> Reload ops rs cfg w =
         (Returned (rs\<lparr>scheduler := n\<rparr>, v4),
          [MuLock, CallStop (scheduler rs),
           CallNewScheduler cfg (torrentArchive (scheduler rs)) (stats (scheduler rs))
             (pctx (scheduler rs)) (announceClient (scheduler rs)) (netevents (scheduler rs)),
           CallAq, CallStart n q, MuUnlock]))"
proof (intro conjI impI)
  assume "newScheduler ops cfg (torrentArchive (scheduler rs)) (stats (scheduler rs))
        (pctx (scheduler rs)) (announceClient (scheduler rs)) (netevents (scheduler rs))
        (Stop ops (scheduler rs) w) = (Inl err, w2)"
  then show "Reload ops rs cfg w =
         (Fatal,
          [MuLock, CallStop (scheduler rs),
           CallNewScheduler cfg (torrentArchive (scheduler rs)) (stats (scheduler rs))
             (pctx (scheduler rs)) (announceClient (scheduler rs)) (netevents (scheduler rs)),
           MuUnlock,
           LogFatal (''Failed to reload scheduler config: '' @ ''create new scheduler: '' @ err)])"
    by (simp add: Reload_def reload_new_fails)
next
  assume "newScheduler ops cfg (torrentArchive (scheduler rs)) (stats (scheduler rs))
        (pctx (scheduler rs)) (announceClient (scheduler rs)) (netevents (scheduler rs))
        (Stop ops (scheduler rs) w) = (Inr n, v2)
      \<and> aq rs v2 = (q, v3) \<and> start ops n q v3 = (Some err2, v4)"
  then have "newScheduler ops cfg (torrentArchive (scheduler rs)) (stats (scheduler rs))
        (pctx (scheduler rs)) (announceClient (scheduler rs)) (netevents (scheduler rs))
        (Stop ops (scheduler rs) w) = (Inr n, v2)"
      and "aq rs v2 = (q, v3)" and "start ops n q v3 = (Some err2, v4)"
    by simp_all
  then have "reload ops rs cfg w =
           (map_option (\<lambda>err. ''start new scheduler: '' @ err) (Some err2), rs\<lparr>scheduler := n\<rparr>, v4,
            [MuLock, CallStop (scheduler rs),
             CallNewScheduler cfg (torrentArchive (scheduler rs)) (stats (scheduler rs))
               (pctx (scheduler rs)) (announceClient (scheduler rs)) (netevents (scheduler rs)),
             CallAq, CallStart n q, MuUnlock])"
    by (rule reload_new_succeeds)
  then show "Reload ops rs cfg w =
         (Fatal,
          [MuLock, CallStop (scheduler rs),
           CallNewScheduler cfg (torrentArchive (scheduler rs)) (stats (scheduler rs))
             (pctx (scheduler rs)) (announceClient (scheduler rs)) (netevents (scheduler rs)),
           CallAq, CallStart n q, MuUnlock,
           LogFatal (''Failed to reload scheduler config: '' @ ''start new scheduler: '' @ err2)])"
    by (simp add: Reload_def)
next
  assume "newScheduler ops cfg (torrentArchive (scheduler rs)) (stats (scheduler rs))
        (pctx (scheduler rs)) (announceClient (scheduler rs)) (netevents (scheduler rs))
        (Stop ops (scheduler rs) w) = (Inr n, v2)
      \<and> aq rs v2 = (q, v3) \<and> start ops n q v3 = (None, v4)"
  then have "newScheduler ops cfg (torrentArchive (scheduler rs)) (stats (scheduler rs))
        (pctx (scheduler rs)) (announceClient (scheduler rs)) (netevents (scheduler rs))
        (Stop ops (scheduler rs) w) = (Inr n, v2)"
      and "aq rs v2 = (q, v3)" and "start ops n q v3 = (None, v4)"
    by simp_all
  then have "reload ops rs cfg w =
           (map_option (\<lambda>err. ''start new scheduler: '' @ err) None, rs\<lparr>scheduler := n\<rparr>, v4,
            [MuLock, CallStop (scheduler rs),
             CallNewScheduler cfg (torrentArchive (scheduler rs)) (stats (scheduler rs))
               (pctx (scheduler rs)) (announceClient (scheduler rs)) (netevents (scheduler rs)),
             CallAq, CallStart n q, MuUnlock])"
    by (rule reload_new_succeeds)
  then show "Reload ops rs cfg w =
         (Returned (rs\<lparr>scheduler := n\<rparr>, v4),
          [MuLock, CallStop (scheduler rs),
           CallNewScheduler cfg (torrentArchive (scheduler rs)) (stats (scheduler rs))
             (pctx (scheduler rs)) (announceClient (scheduler rs)) (netevents (scheduler rs)),
           CallAq, CallStart n q, MuUnlock])"
    by (simp add: Reload_def)
qed

theorem Reload_restart_or_fatal_witness:
  "Reload counting_ops counting_rs 0 5 =
     (Fatal,
      [MuLock, CallStop (scheduler counting_rs),
       CallNewScheduler 0 (Handle 1) (Handle 2) (Handle 3) (Handle 4) (Handle 5),
       MuUnlock,
       LogFatal (''Failed to reload scheduler config: '' @ ''create new scheduler: ''
                 @ ''invalid config'')])
   \<and> Reload counting_ops counting_rs 13 5 =
     (Fatal,
      [MuLock, CallStop (scheduler counting_rs),
       CallNewScheduler 13 (Handle 1) (Handle 2) (Handle 3) (Handle 4) (Handle 5),
       CallAq,
       CallStart \<lparr>config = 13, torrentArchive = Handle 1, stats = Handle 2, pctx = Handle 3,
                   announceClient = Handle 4, netevents = Handle 5\<rparr> (Queue 5),
       MuUnlock,
       LogFatal (''Failed to reload scheduler config: '' @ ''start new scheduler: ''
                 @ ''listen failed'')])
   \<and> Reload counting_ops counting_rs 7 5 =
     (Returned
        (counting_rs\<lparr>scheduler :=
           \<lparr>config = 7, torrentArchive = Handle 1, stats = Handle 2, pctx = Handle 3,
              announceClient = Handle 4, netevents = Handle 5\<rparr>\<rparr>, 6),
      [MuLock, CallStop (scheduler counting_rs),
       CallNewScheduler 7 (Handle 1) (Handle 2) (Handle 3) (Handle 4) (Handle 5),
       CallAq,
       CallStart \<lparr>config = 7, torrentArchive = Handle 1, stats = Handle 2, pctx = Handle 3,
                   announceClient = Handle 4, netevents = Handle 5\<rparr> (Queue 5),
       MuUnlock])"
proof -
  let ?s = "scheduler counting_rs"
  let ?n = "\<lambda>cfg. \<lparr>config = cfg, torrentArchive = Handle 1, stats = Handle 2, pctx = Handle 3,
                   announceClient = Handle 4, netevents = Handle 5\<rparr>"
  have fields: "torrentArchive ?s = Handle 1" "stats ?s = Handle 2" "pctx ?s = Handle 3"
      "announceClient ?s = Handle 4" "netevents ?s = Handle 5"
    by (simp_all add: counting_rs_def)
  have new0: "newScheduler counting_ops 0 (torrentArchive ?s) (stats ?s) (pctx ?s)
        (announceClient ?s) (netevents ?s) (Stop counting_ops ?s 5) = (Inl ''invalid config'', 5)"
    by (simp add: counting_ops_def)
  have new: "cfg \<noteq> 0 \<Longrightarrow> newScheduler counting_ops cfg (torrentArchive ?s) (stats ?s) (pctx ?s)
        (announceClient ?s) (netevents ?s) (Stop counting_ops ?s 5) = (Inr (?n cfg), 5)" for cfg
    by (simp add: counting_ops_def fields)
  have q: "aq counting_rs 5 = (Queue 5, 6)"
    by (simp add: counting_rs_def)
  have st13: "start counting_ops (?n 13) (Queue 5) 6 = (Some ''listen failed'', 6)"
    by (simp add: counting_ops_def)
  have st7: "start counting_ops (?n 7) (Queue 5) 6 = (None, 6)"
    by (simp add: counting_ops_def)
  have a: "Reload counting_ops counting_rs 0 5 =
     (Fatal,
      [MuLock, CallStop ?s,
       CallNewScheduler 0 (Handle 1) (Handle 2) (Handle 3) (Handle 4) (Handle 5),
       MuUnlock,
       LogFatal (''Failed to reload scheduler config: '' @ ''create new scheduler: ''
                 @ ''invalid config'')])"
    using Reload_restart_or_fatal [where ops = counting_ops and rs = counting_rs and cfg = 0
        and w = 5 and err = "''invalid config''" and ?w2.0 = 5, THEN conjunct1] new0
    by (simp only: fields)
  have b: "Reload counting_ops counting_rs 13 5 =
     (Fatal,
      [MuLock, CallStop ?s,
       CallNewScheduler 13 (Handle 1) (Handle 2) (Handle 3) (Handle 4) (Handle 5),
       CallAq, CallStart (?n 13) (Queue 5), MuUnlock,
       LogFatal (''Failed to reload scheduler config: '' @ ''start new scheduler: ''
                 @ ''listen failed'')])"
    using Reload_restart_or_fatal [where ops = counting_ops and rs = counting_rs and cfg = 13
        and w = 5 and n = "?n 13" and ?v2.0 = 5 and q = "Queue 5" and ?v3.0 = 6
        and ?err2.0 = "''listen failed''" and ?v4.0 = 6, THEN conjunct2, THEN conjunct1]
      new [of 13] q st13
    by (simp only: fields)
  have c: "Reload counting_ops counting_rs 7 5 =
     (Returned (counting_rs\<lparr>scheduler := ?n 7\<rparr>, 6),
      [MuLock, CallStop ?s,
       CallNewScheduler 7 (Handle 1) (Handle 2) (Handle 3) (Handle 4) (Handle 5),
       CallAq, CallStart (?n 7) (Queue 5), MuUnlock])"
    using Reload_restart_or_fatal [where ops = counting_ops and rs = counting_rs and cfg = 7
        and w = 5 and n = "?n 7" and ?v2.0 = 5 and q = "Queue 5" and ?v3.0 = 6
        and ?v4.0 = 6, THEN conjunct2, THEN conjunct2]
      new [of 7] q st7
    by (simp only: fields)
  from a b c show ?thesis by blast
qed

end
